theory Spec2Isabelle
  imports Complex_Main "HOL-Library.AList" "HOL-Library.Sublist"
begin

section \<open>Python values used by VigenereDecipher.py\<close>

text \<open>
  Exceptions the modelled functions can raise. \<open>ZeroDivisionError\<close> comes from \<open>%\<close> and
  \<open>/\<close> with a zero right operand, \<open>ValueError\<close> from \<open>math.isqrt\<close> on a negative number.
\<close>

datatype py_error = ZeroDivisionError | ValueError

text \<open>
  The ciphertext is read with \<open>encoding='ascii'\<close>, so every character is one byte and a
  Python \<open>str\<close> is a \<open>string\<close>. \<open>ord\<close> and \<open>chr\<close> are the built-ins; \<open>chr\<close> is only
  ever applied to values in 65..90.
\<close>

definition py_ord :: "char \<Rightarrow> int" where
  "py_ord c = of_char c"

definition py_chr :: "int \<Rightarrow> char" where
  "py_chr i = char_of i"

text \<open>The test \<open>'A' <= c <= 'Z'\<close> on a one-character string.\<close>

definition is_AZ :: "char \<Rightarrow> bool" where
  "is_AZ c \<longleftrightarrow> py_ord CHR ''A'' \<le> py_ord c \<and> py_ord c \<le> py_ord CHR ''Z''"

section \<open>decrypt_vigenere\<close>

text \<open>
  One iteration of \<open>for c in text\<close>. The state is the list \<open>result\<close> and the cursor \<open>ki\<close>.
  \<open>ki % len(key)\<close> raises \<open>ZeroDivisionError\<close> for the empty key; it is evaluated only in
  the branch of a letter.
\<close>

fun decrypt_step :: "string \<Rightarrow> string \<times> nat \<Rightarrow> char \<Rightarrow> py_error + string \<times> nat" where
  "decrypt_step key (result, ki) c =
     (if is_AZ c then
        (if length key = 0 then Inl ZeroDivisionError
         else
           let shift = py_ord (key ! (ki mod length key)) - py_ord CHR ''A'';
               dec = (py_ord c - py_ord CHR ''A'' - shift) mod 26 + py_ord CHR ''A''
           in Inr (result @ [py_chr dec], ki + 1))
      else Inr (result @ [c], ki))"

fun decrypt_loop :: "string \<Rightarrow> string \<Rightarrow> string \<times> nat \<Rightarrow> py_error + string \<times> nat" where
  "decrypt_loop key [] st = Inr st"
| "decrypt_loop key (c # cs) st =
     (case decrypt_step key st c of
        Inl e \<Rightarrow> Inl e
      | Inr st' \<Rightarrow> decrypt_loop key cs st')"

definition decrypt_vigenere :: "string \<Rightarrow> string \<Rightarrow> py_error + string" where
  "decrypt_vigenere text key =
     (case decrypt_loop key text ([], 0) of
        Inl e \<Rightarrow> Inl e
      | Inr (result, ki) \<Rightarrow> Inr result)"

text \<open>
  Modelled from the spec: the matching forward-shift encryptor, which the repository does
  not contain. Each letter is shifted forward by the current key letter,
  \<open>(letter + keyLetter) mod 26\<close>, and the key cursor advances circularly; like the
  decryptor, it leaves every other character alone.
\<close>

fun encrypt_from :: "string \<Rightarrow> nat \<Rightarrow> string \<Rightarrow> string" where
  "encrypt_from key ki [] = []"
| "encrypt_from key ki (c # cs) =
     (if is_AZ c then
        py_chr ((py_ord c - py_ord CHR ''A''
                 + (py_ord (key ! (ki mod length key)) - py_ord CHR ''A'')) mod 26
                + py_ord CHR ''A'')
        # encrypt_from key (ki + 1) cs
      else c # encrypt_from key ki cs)"

definition encrypt_vigenere :: "string \<Rightarrow> string \<Rightarrow> string" where
  "encrypt_vigenere text key = encrypt_from key 0 text"

text \<open>The decrypted letter at cursor position \<open>ki\<close>, and the cursor before position \<open>i\<close>.\<close>

definition dec_letter :: "string \<Rightarrow> nat \<Rightarrow> char \<Rightarrow> char" where
  "dec_letter key ki c =
     py_chr ((py_ord c - py_ord CHR ''A''
              - (py_ord (key ! (ki mod length key)) - py_ord CHR ''A'')) mod 26
             + py_ord CHR ''A'')"

definition key_cursor :: "string \<Rightarrow> nat \<Rightarrow> nat" where
  "key_cursor text i = length (filter is_AZ (take i text))"

text \<open>The output of the loop from cursor \<open>ki\<close> on, as a function of the remaining text.\<close>

fun decrypt_from :: "string \<Rightarrow> nat \<Rightarrow> string \<Rightarrow> string" where
  "decrypt_from key ki [] = []"
| "decrypt_from key ki (c # cs) =
     (if is_AZ c then dec_letter key ki c # decrypt_from key (ki + 1) cs
      else c # decrypt_from key ki cs)"

section \<open>group\<close>

text \<open>
  The extended slice \<open>xs[i::k]\<close> for a start \<open>i \<ge> 0\<close> and a step \<open>k \<ge> 1\<close>: the element at
  \<open>i\<close>, then every \<open>k\<close>-th one after it. A step of 0 raises in Python; \<open>group\<close> never
  evaluates such a slice, since \<open>range(key_length)\<close> is then empty.
\<close>

fun every_kth :: "nat \<Rightarrow> 'a list \<Rightarrow> 'a list" where
  "every_kth k [] = []"
| "every_kth k (x # xs) = x # every_kth k (drop (k - 1) xs)"

definition slice_from_step :: "'a list \<Rightarrow> nat \<Rightarrow> nat \<Rightarrow> 'a list" where
  "slice_from_step xs i k = every_kth k (drop i xs)"

text \<open>\<open>[''.join(text[i::key_length]) for i in range(key_length)]\<close>; empty for \<open>key_length \<le> 0\<close>.\<close>

definition group :: "string \<Rightarrow> int \<Rightarrow> string list" where
  "group text key_length =
     map (\<lambda>i. slice_from_step text i (nat key_length)) [0..<nat key_length]"

text \<open>
  Re-interleaving columns in column order: position \<open>j\<close> of the result is taken from
  column \<open>j mod k\<close>, at index \<open>j div k\<close>, for as many positions as the columns hold.
\<close>

definition interleave :: "'a list list \<Rightarrow> 'a list" where
  "interleave cols =
     map (\<lambda>j. cols ! (j mod length cols) ! (j div length cols))
       [0..<sum_list (map length cols)]"

section \<open>get_divisors\<close>

text \<open>
  \<open>math.isqrt\<close> of the standard library: the floor of the exact square root of a
  non-negative integer, found here by counting up from \<open>r\<close>; it raises \<open>ValueError\<close> for a
  negative argument.
\<close>

function isqrt_search :: "nat \<Rightarrow> nat \<Rightarrow> nat" where
  "isqrt_search r n = (if (r + 1) * (r + 1) \<le> n then isqrt_search (r + 1) n else r)"
  by pat_completeness auto
termination
proof (relation "measure (\<lambda>(r, n). n - r)")
  show "wf (measure (\<lambda>(r, n). n - r))" by simp
next
  fix r n :: nat
  assume a: "(r + 1) * (r + 1) \<le> n"
  have "r + 1 \<le> (r + 1) * (r + 1)" by simp
  with a have "r < n" by linarith
  then show "((r + 1, n), (r, n)) \<in> measure (\<lambda>(r, n). n - r)" by simp
qed

definition isqrt :: "int \<Rightarrow> py_error + int" where
  "isqrt n = (if n < 0 then Inl ValueError else Inr (int (isqrt_search 0 (nat n))))"

text \<open>The body of \<open>for i in range(2, limit+1)\<close>, on the set \<open>divs\<close>.\<close>

definition divisors_step :: "int \<Rightarrow> int \<Rightarrow> int set \<Rightarrow> int set" where
  "divisors_step n i divs = (if n mod i = 0 then insert (n div i) (insert i divs) else divs)"

text \<open>\<open>n\<close> itself is added after the loop whatever its value; \<open>sorted\<close> lists the set ascending.\<close>

definition get_divisors :: "int \<Rightarrow> py_error + int list" where
  "get_divisors n =
     (case isqrt n of
        Inl e \<Rightarrow> Inl e
      | Inr limit \<Rightarrow>
          let divs = fold (divisors_step n) [2..limit] {};
              divs = insert n divs
          in Inr (sorted_list_of_set divs))"

section \<open>Counter and index_of_coincidence\<close>

text \<open>
  A \<open>dict\<close> keeps its keys in insertion order, so it is an association list with distinct
  keys: \<open>d[k] = v\<close> is \<open>AList.update k v d\<close> (in place for a key already there, at the end
  for a new one) and \<open>d.get(k, dflt)\<close> is \<open>dict_get\<close>.
\<close>

definition dict_get :: "('k \<times> 'v) list \<Rightarrow> 'k \<Rightarrow> 'v \<Rightarrow> 'v" where
  "dict_get d k dflt = (case map_of d k of None \<Rightarrow> dflt | Some v \<Rightarrow> v)"

text \<open>
  \<open>Counter(iterable)\<close> runs \<open>self[elem] = self.get(elem, 0) + 1\<close> for each element, in order.
\<close>

definition counter_add :: "'k \<Rightarrow> ('k \<times> int) list \<Rightarrow> ('k \<times> int) list" where
  "counter_add x c = AList.update x (dict_get c x 0 + 1) c"

definition Counter :: "'k list \<Rightarrow> ('k \<times> int) list" where
  "Counter xs = fold counter_add xs []"

text \<open>
  \<open>numerator = sum(f * (f - 1) for f in freq.values())\<close>, an integer. The quotient
  \<open>numerator / (N * (N - 1))\<close> is Python's true division of two integers; the float it
  returns is the one nearest to the exact quotient, which is the value modelled here
  (\<open>float\<close> as \<open>real\<close>, rounding left out).
\<close>

definition ic_numerator :: "string \<Rightarrow> int" where
  "ic_numerator text = sum_list (map (\<lambda>f. f * (f - 1)) (map snd (Counter text)))"

definition index_of_coincidence :: "string \<Rightarrow> real" where
  "index_of_coincidence text =
     (let N = int (length text) in
      if N \<le> 1 then 0
      else real_of_int (ic_numerator text) / real_of_int (N * (N - 1)))"

section \<open>chi_squared\<close>

text \<open>
  The module's reference table, in the order it is written. Floats are modelled by the
  real numbers their literals denote, and float arithmetic by exact arithmetic.
\<close>

definition freq_pt :: "(char \<times> real) list" where
  "freq_pt =
     [(CHR ''A'', 14.7154), (CHR ''B'', 0.9926), (CHR ''C'', 3.8775), (CHR ''D'', 4.7958),
      (CHR ''E'', 12.7879), (CHR ''F'', 0.9868), (CHR ''G'', 1.1435), (CHR ''H'', 1.4840),
      (CHR ''I'', 6.1426), (CHR ''J'', 0.2787), (CHR ''K'', 0.0044), (CHR ''L'', 3.3069),
      (CHR ''M'', 4.8531), (CHR ''N'', 4.7498), (CHR ''O'', 10.5498), (CHR ''P'', 2.6743),
      (CHR ''Q'', 1.2897), (CHR ''R'', 6.3127), (CHR ''S'', 7.5612), (CHR ''T'', 4.2199),
      (CHR ''U'', 4.7630), (CHR ''V'', 1.6736), (CHR ''W'', 0.0011), (CHR ''X'', 0.2845),
      (CHR ''Y'', 0.0686), (CHR ''Z'', 0.4824)]"

text \<open>
  One iteration of \<open>for L, E_perc in freq_pt.items()\<close>, on the accumulator. \<open>obs_counts\<close> is
  a \<open>Counter\<close>; \<open>E_perc or 1\<close> is 1 for \<open>E_perc = 0.0\<close> and \<open>E_perc\<close> otherwise.
\<close>

fun chi_step :: "(char \<times> int) list \<Rightarrow> int \<Rightarrow> int \<Rightarrow> char \<times> real \<Rightarrow> real \<Rightarrow> real" where
  "chi_step obs_counts total_len shift (L, E_perc) chi2 =
     (let shifted_letter = py_chr ((py_ord L - py_ord CHR ''A'' + shift) mod 26 + py_ord CHR ''A'');
          observed = dict_get obs_counts shifted_letter 0;
          O_perc = real_of_int observed / real_of_int total_len * 100
      in chi2 + (O_perc - E_perc) ^ 2 / (if E_perc = 0 then 1 else E_perc))"

text \<open>
  The loop over a table. \<open>observed / total_len\<close> raises \<open>ZeroDivisionError\<close> in the first
  iteration when \<open>total_len\<close> is 0. \<open>chi_squared\<close> runs it on the global \<open>freq_pt\<close>.
\<close>

definition chi_squared_on ::
  "(char \<times> real) list \<Rightarrow> (char \<times> int) list \<Rightarrow> int \<Rightarrow> int \<Rightarrow> py_error + real" where
  "chi_squared_on table obs_counts total_len shift =
     (if table \<noteq> [] \<and> total_len = 0 then Inl ZeroDivisionError
      else Inr (fold (chi_step obs_counts total_len shift) table 0))"

definition chi_squared :: "(char \<times> int) list \<Rightarrow> int \<Rightarrow> int \<Rightarrow> py_error + real" where
  "chi_squared obs_counts total_len shift = chi_squared_on freq_pt obs_counts total_len shift"

text \<open>
  The terms of the statistic: letter number \<open>l\<close> of the alphabet, its expected percentage
  in the reference table, and the observed percentage of a letter in a column
  (\<open>count / total_len * 100\<close>, the count being 0 for a letter that is absent).
\<close>

definition letter :: "int \<Rightarrow> char" where
  "letter l = py_chr (py_ord CHR ''A'' + l)"

definition expected_pct :: "int \<Rightarrow> real" where
  "expected_pct l = dict_get freq_pt (letter l) 0"

definition observed_pct :: "(char \<times> int) list \<Rightarrow> int \<Rightarrow> int \<Rightarrow> real" where
  "observed_pct obs_counts total_len l =
     real_of_int (dict_get obs_counts (letter l) 0) / real_of_int total_len * 100"

section \<open>kasiski_test\<close>

text \<open>
  The slice \<open>xs[start:stop]\<close>: a negative bound counts from the end, and both bounds are
  clamped to the list.
\<close>

definition py_slice :: "'a list \<Rightarrow> int \<Rightarrow> int \<Rightarrow> 'a list" where
  "py_slice xs start stop =
     (let len = int (length xs);
          clamp = (\<lambda>v. if v < 0 then max (v + len) 0 else min v len);
          s = clamp start;
          e = clamp stop
      in take (nat (e - s)) (drop (nat s) xs))"

text \<open>
  \<open>d[k].append(v)\<close> on a \<open>defaultdict(list)\<close>: a missing key is first inserted, at the end,
  with the empty list.
\<close>

definition dict_append :: "('k \<times> 'v list) list \<Rightarrow> 'k \<Rightarrow> 'v \<Rightarrow> ('k \<times> 'v list) list" where
  "dict_append d k v = AList.update k (dict_get d k [] @ [v]) d"

text \<open>
  \<open>range(len(text) - n + 1)\<close> is the integers from 0 to \<open>len(text) - n\<close>; the dict
  comprehension keeps the order of the entries.
\<close>

definition extract_ngram_positions :: "string \<Rightarrow> int \<Rightarrow> int \<Rightarrow> (string \<times> int list) list" where
  "extract_ngram_positions text n threshold =
     (let positions =
            fold (\<lambda>i positions. dict_append positions (py_slice text i (i + n)) i)
              [0..int (length text) - n] []
      in filter (\<lambda>(ng, pos). threshold \<le> int (length pos)) positions)"

text \<open>
  The two inner loops of \<open>compute_pairwise_distances\<close> for one n-gram, and the outer loop
  over \<open>positions.items()\<close>. An n-gram with a single position gets no entry.
\<close>

definition pair_distances :: "string \<Rightarrow> int list \<Rightarrow> (string \<times> int list) list \<Rightarrow> (string \<times> int list) list" where
  "pair_distances ng pos_list distances =
     fold (\<lambda>i distances.
             fold (\<lambda>j distances. dict_append distances ng (pos_list ! j - pos_list ! i))
               [i + 1..<length pos_list] distances)
       [0..<length pos_list - 1] distances"

definition compute_pairwise_distances :: "(string \<times> int list) list \<Rightarrow> (string \<times> int list) list" where
  "compute_pairwise_distances positions =
     fold (\<lambda>(ng, pos_list) distances. pair_distances ng pos_list distances) positions []"

text \<open>
  \<open>Counter.most_common(n)\<close> is \<open>heapq.nlargest(n, items, key=itemgetter(1))\<close>, documented as
  \<open>sorted(items, key=itemgetter(1), reverse=True)[:n]\<close>: a stable sort by descending count,
  cut after \<open>n\<close> items (none for \<open>n \<le> 0\<close>).
\<close>

definition most_common :: "('k \<times> int) list \<Rightarrow> int \<Rightarrow> ('k \<times> int) list" where
  "most_common c n = take (nat n) (sort_key (\<lambda>p. - snd p) c)"

text \<open>
  \<open>kasiski_test\<close>: the loop \<open>for d in dist\<close> that extends \<open>factor_list\<close>, the loop over
  \<open>distances.items()\<close> that extends \<open>list_a\<close> with the keys of the n-gram's most common
  divisors, and the final tally. The prints are left out.
\<close>

fun factor_loop :: "int list \<Rightarrow> int list \<Rightarrow> py_error + int list" where
  "factor_loop [] factor_list = Inr factor_list"
| "factor_loop (d # ds) factor_list =
     (case get_divisors d of
        Inl e \<Rightarrow> Inl e
      | Inr divs \<Rightarrow> factor_loop ds (factor_list @ divs))"

fun ngram_loop :: "int \<Rightarrow> (string \<times> int list) list \<Rightarrow> int list \<Rightarrow> py_error + int list" where
  "ngram_loop top_k [] list_a = Inr list_a"
| "ngram_loop top_k ((ng, ds) # rest) list_a =
     (case factor_loop ds [] of
        Inl e \<Rightarrow> Inl e
      | Inr factor_list \<Rightarrow>
          let top_divisors = most_common (Counter factor_list) top_k
          in ngram_loop top_k rest (fold (\<lambda>(key, _) list_a. list_a @ [key]) top_divisors list_a))"

definition kasiski_test :: "string \<Rightarrow> int \<Rightarrow> int \<Rightarrow> int \<Rightarrow> py_error + (int \<times> int) list" where
  "kasiski_test text n top_k threshold =
     (let positions = extract_ngram_positions text n threshold;
          distances = compute_pairwise_distances positions
      in case ngram_loop top_k distances [] of
           Inl e \<Rightarrow> Inl e
         | Inr list_a \<Rightarrow> Inr (most_common (Counter list_a) top_k))"

text \<open>
  The terms of the vote count: the distinct values of a list in first-encountered order,
  their tally, and the \<open>k\<close> entries with the most votes under a stable descending sort.
  \<open>capped_votes\<close> gives each n-gram one vote for each of its \<open>k\<close> most frequent divisors.
\<close>

definition first_seen :: "'a list \<Rightarrow> 'a list" where
  "first_seen xs = rev (remdups (rev xs))"

definition tally :: "'a list \<Rightarrow> ('a \<times> int) list" where
  "tally xs = map (\<lambda>x. (x, int (count_list xs x))) (first_seen xs)"

definition top_votes :: "int \<Rightarrow> 'a list \<Rightarrow> ('a \<times> int) list" where
  "top_votes k xs = take (nat k) (sort_key (\<lambda>p. - snd p) (tally xs))"

definition the_divisors :: "int \<Rightarrow> int list" where
  "the_divisors d = (case get_divisors d of Inl e \<Rightarrow> [] | Inr divs \<Rightarrow> divs)"

definition capped_votes :: "int \<Rightarrow> (string \<times> int list) list \<Rightarrow> int list" where
  "capped_votes k distances =
     concat (map (\<lambda>(ng, ds). map fst (top_votes k (concat (map the_divisors ds)))) distances)"

text \<open>Every distance stored in a dict of distances is non-negative.\<close>

definition nonneg_values :: "(string \<times> int list) list \<Rightarrow> bool" where
  "nonneg_values d \<longleftrightarrow> list_all (\<lambda>(g, vs). list_all (\<lambda>v. 0 \<le> v) vs) d"

section \<open>The script\<close>

text \<open>\<open>dict(pairs)\<close>: a later pair overwrites an earlier one with the same key.\<close>

definition list_to_dict :: "('k \<times> 'v) list \<Rightarrow> ('k \<times> 'v) list" where
  "list_to_dict pairs = fold (\<lambda>(k, v) d. AList.update k v d) pairs []"

text \<open>\<open>result[key] = result.get(key, 0) + freq\<close> for every item of every dict.\<close>

definition sum_dicts :: "(int \<times> int) list list \<Rightarrow> (int \<times> int) list" where
  "sum_dicts dicts =
     fold (\<lambda>d result.
             fold (\<lambda>(key, freq) result. AList.update key (dict_get result key 0 + freq) result)
               d result)
       dicts []"

text \<open>
  The mean of the columns' indices of coincidence; \<open>sum(ics) / key_length\<close> raises
  \<open>ZeroDivisionError\<close> for \<open>key_length = 0\<close>.
\<close>

definition average_ic_for_key_length :: "string \<Rightarrow> int \<Rightarrow> py_error + real" where
  "average_ic_for_key_length text key_length =
     (let groups = group text key_length;
          ics = map index_of_coincidence groups
      in if key_length = 0 then Inl ZeroDivisionError
         else Inr (sum_list ics / real_of_int key_length))"

text \<open>
  The script under \<open>if __name__ == "__main__"\<close>, from the normalised text on; the prints
  and the timing are left out. First the Kasiski runs over \<open>tests\<close> with \<open>top = 3\<close>, each
  result turned into a dict.
\<close>

definition tests :: "(int \<times> int) list" where
  "tests = [(3, 6), (4, 5), (5, 3), (6, 2), (7, 2)]"

fun kasiski_stage :: "string \<Rightarrow> (int \<times> int) list \<Rightarrow> (int \<times> int) list list
    \<Rightarrow> py_error + (int \<times> int) list list" where
  "kasiski_stage text [] list_dicts = Inr list_dicts"
| "kasiski_stage text ((n, threshold) # rest) list_dicts =
     (case kasiski_test text n 3 threshold of
        Inl e \<Rightarrow> Inl e
      | Inr result \<Rightarrow> kasiski_stage text rest (list_dicts @ [list_to_dict result]))"

text \<open>
  \<open>count = Counter(sums)\<close> copies the dict, so \<open>count\<close> is \<open>sums\<close>; the loop keeps the lengths
  above 2 among \<open>count.most_common(3)\<close>.
\<close>

definition candidate_lengths :: "(int \<times> int) list \<Rightarrow> int list" where
  "candidate_lengths count =
     fold (\<lambda>(len, freq) possible_keys_length.
             if len > 2 then possible_keys_length @ [len] else possible_keys_length)
       (most_common count 3) []"

text \<open>
  The loop over \<open>possible_keys_length\<close>, on the pair \<open>greatest\<close>, which starts as \<open>(0, 0)\<close>.
\<close>

fun select_key_length :: "string \<Rightarrow> int list \<Rightarrow> int \<times> real \<Rightarrow> py_error + int \<times> real" where
  "select_key_length text [] greatest = Inr greatest"
| "select_key_length text (k # rest) greatest =
     (case average_ic_for_key_length text k of
        Inl e \<Rightarrow> Inl e
      | Inr ic_avg \<Rightarrow>
          select_key_length text rest (if ic_avg > snd greatest then (k, ic_avg) else greatest))"

text \<open>
  Key recovery: the scan of the 26 shifts for one column (\<open>best_score\<close> starts as
  \<open>float('inf')\<close>, here \<open>None\<close>), and the loop over the columns.
\<close>

fun best_shift :: "(char \<times> int) list \<Rightarrow> int \<Rightarrow> int list \<Rightarrow> int \<times> real option
    \<Rightarrow> py_error + int \<times> real option" where
  "best_shift counts n [] best = Inr best"
| "best_shift counts n (k # rest) (best_k, best_score) =
     (case chi_squared counts n k of
        Inl e \<Rightarrow> Inl e
      | Inr score \<Rightarrow>
          best_shift counts n rest
            (if (case best_score of None \<Rightarrow> True | Some b \<Rightarrow> score < b)
             then (k, Some score) else (best_k, best_score)))"

fun recover_key :: "string \<Rightarrow> nat \<Rightarrow> nat list \<Rightarrow> string \<Rightarrow> py_error + string" where
  "recover_key text key_length [] key = Inr key"
| "recover_key text key_length (i # rest) key =
     (let group_i = slice_from_step text i key_length;
          counts = Counter group_i;
          n = int (length group_i)
      in case best_shift counts n [0..25] (0, None) of
           Inl e \<Rightarrow> Inl e
         | Inr (best_k, best_score) \<Rightarrow>
             recover_key text key_length rest (key @ [py_chr (best_k + py_ord CHR ''A'')]))"

text \<open>
  The whole run: the selected key length, the estimated key and the decryption of
  \<open>text[:500]\<close>, or the exception that ends it.
\<close>

definition main_script :: "string \<Rightarrow> py_error + int \<times> string \<times> string" where
  "main_script text =
     (case kasiski_stage text tests [] of
        Inl e \<Rightarrow> Inl e
      | Inr list_dicts \<Rightarrow>
          let sums_dict = sum_dicts list_dicts;
              count = sums_dict;
              possible_keys_length = candidate_lengths count
          in case select_key_length text possible_keys_length (0, 0) of
               Inl e \<Rightarrow> Inl e
             | Inr greatest \<Rightarrow>
                 (case recover_key text (nat (fst greatest)) [0..<nat (fst greatest)] [] of
                    Inl e \<Rightarrow> Inl e
                  | Inr estimated_key \<Rightarrow>
                      (case decrypt_vigenere (take 500 text) estimated_key of
                         Inl e \<Rightarrow> Inl e
                       | Inr plain \<Rightarrow> Inr (fst greatest, estimated_key, plain))))"

section \<open>Properties of decrypt_vigenere\<close>

lemma decrypt_loop_eq:
  "key \<noteq> [] \<Longrightarrow>
     decrypt_loop key cs (res, ki)
       = Inr (res @ decrypt_from key ki cs, ki + length (filter is_AZ cs))"
  by (induction cs arbitrary: res ki) (simp_all add: dec_letter_def Let_def)

lemma decrypt_vigenere_eq:
  "key \<noteq> [] \<Longrightarrow> decrypt_vigenere text key = Inr (decrypt_from key 0 text)"
  by (simp add: decrypt_vigenere_def decrypt_loop_eq)

lemma length_decrypt_from: "length (decrypt_from key ki cs) = length cs"
  by (induction cs arbitrary: ki) simp_all

lemma decrypt_from_nth:
  "i < length cs \<Longrightarrow>
     decrypt_from key ki cs ! i
       = (if is_AZ (cs ! i) then dec_letter key (ki + key_cursor cs i) (cs ! i) else cs ! i)"
proof (induction cs arbitrary: ki i)
  case Nil
  then show ?case by simp
next
  case (Cons c cs)
  show ?case
  proof (cases i)
    case 0
    then show ?thesis by (simp add: key_cursor_def)
  next
    case (Suc j)
    with Cons.prems have j: "j < length cs" by simp
    show ?thesis
      using Cons.IH [OF j, of "ki + 1"] Cons.IH [OF j, of ki] Suc
      by (simp add: key_cursor_def)
  qed
qed

lemma py_ord_range: "0 \<le> py_ord c \<and> py_ord c < 256"
proof -
  have "py_ord c = int (of_char c)" by (simp add: py_ord_def of_nat_of_char)
  with nat_of_char_less_256 [of c] show ?thesis by simp
qed

lemma py_chr_ord: "py_chr (py_ord c) = c"
  by (simp add: py_chr_def py_ord_def)

lemma py_ord_chr: "0 \<le> i \<Longrightarrow> i < 256 \<Longrightarrow> py_ord (py_chr i) = i"
  by (simp add: py_chr_def py_ord_def)

lemma is_AZ_iff: "is_AZ c \<longleftrightarrow> 65 \<le> py_ord c \<and> py_ord c \<le> 90"
  by (simp add: is_AZ_def py_ord_def)

lemma is_AZ_chr: "is_AZ (py_chr (x mod 26 + py_ord CHR ''A''))"
proof -
  have "0 \<le> x mod 26" "x mod 26 < 26" by simp_all
  then have "py_ord (py_chr (x mod 26 + 65)) = x mod 26 + 65"
    by (intro py_ord_chr) linarith+
  moreover have "py_ord CHR ''A'' = 65" by (simp add: py_ord_def)
  ultimately show ?thesis
    using \<open>0 \<le> x mod 26\<close> \<open>x mod 26 < 26\<close> by (simp add: is_AZ_iff)
qed

lemma dec_letter_enc:
  assumes "is_AZ c"
  shows "dec_letter key ki
           (py_chr ((py_ord c - py_ord CHR ''A''
                     + (py_ord (key ! (ki mod length key)) - py_ord CHR ''A'')) mod 26
                    + py_ord CHR ''A'')) = c"
proof -
  define s where "s = py_ord (key ! (ki mod length key)) - py_ord CHR ''A''"
  define p where "p = py_ord c - py_ord CHR ''A''"
  have A: "py_ord CHR ''A'' = 65" by (simp add: py_ord_def)
  from assms have p: "0 \<le> p" "p < 26" by (simp_all add: p_def A is_AZ_iff)
  have r: "0 \<le> (p + s) mod 26" "(p + s) mod 26 < 26" by simp_all
  then have "py_ord (py_chr ((p + s) mod 26 + 65)) = (p + s) mod 26 + 65"
    by (intro py_ord_chr) linarith+
  then have "dec_letter key ki (py_chr ((p + s) mod 26 + py_ord CHR ''A''))
          = py_chr (((p + s) mod 26 - s) mod 26 + 65)"
    by (simp add: dec_letter_def A s_def)
  also have "((p + s) mod 26 - s) mod 26 = p mod 26"
    by (simp add: mod_diff_left_eq)
  also have "p mod 26 = p" using p by simp
  also have "py_chr (p + 65) = c" by (simp add: p_def A py_chr_ord)
  finally show ?thesis by (simp add: p_def s_def)
qed

lemma decrypt_encrypt_from: "decrypt_from key ki (encrypt_from key ki cs) = cs"
proof (induction cs arbitrary: ki)
  case Nil
  then show ?case by simp
next
  case (Cons c cs)
  show ?case
  proof (cases "is_AZ c")
    case True
    then show ?thesis
      by (simp only: encrypt_from.simps decrypt_from.simps if_True is_AZ_chr
            dec_letter_enc [OF True] Cons.IH)
  next
    case False
    then show ?thesis by (simp add: Cons.IH)
  qed
qed

text \<open>
  C10. For every text and every non-empty key, \<open>decrypt_vigenere\<close> returns (it does not
  raise) and its output has exactly the length of the input text.
\<close>

theorem decrypt_vigenere_length:
  "key \<noteq> [] \<Longrightarrow>
     (\<exists>out. decrypt_vigenere text key = Inr out \<and> length out = length text)"
  by (simp add: decrypt_vigenere_eq length_decrypt_from)

theorem decrypt_vigenere_length_witness:
  "''KEY'' \<noteq> [] \<and>
   (\<exists>out. decrypt_vigenere ''RIJVS, GSPVH!'' ''KEY'' = Inr out
      \<and> length out = length ''RIJVS, GSPVH!'')"
  using decrypt_vigenere_length [of "''KEY''" "''RIJVS, GSPVH!''"] by simp

text \<open>
  C4. For every text and every non-empty key, \<open>decrypt_vigenere\<close> returns an output of the
  same length in which position \<open>i\<close> holds, when the input character is a letter
  \<open>'A' <= c <= 'Z'\<close>, the letter \<open>(c - shift) mod 26\<close> for the shift of the key character
  at cursor \<open>k mod len(key)\<close>, where \<open>k\<close> is the number of letters before position \<open>i\<close>
  (so exactly the letters consume a key position, circularly), and holds the input
  character unchanged otherwise.
\<close>

theorem decrypt_vigenere_cursor:
  "key \<noteq> [] \<Longrightarrow>
     (\<exists>out. decrypt_vigenere text key = Inr out \<and> length out = length text \<and>
        (\<forall>i < length text.
           out ! i =
             (if is_AZ (text ! i)
              then py_chr ((py_ord (text ! i) - py_ord CHR ''A''
                      - (py_ord (key ! (key_cursor text i mod length key)) - py_ord CHR ''A''))
                      mod 26 + py_ord CHR ''A'')
              else text ! i)))"
  by (simp add: decrypt_vigenere_eq length_decrypt_from decrypt_from_nth dec_letter_def)

theorem decrypt_vigenere_cursor_witness:
  "''BC'' \<noteq> [] \<and> decrypt_vigenere ''B, b-D!E'' ''BC'' = Inr ''A, b-B!D''"
proof -
  have "decrypt_vigenere ''B, b-D!E'' ''BC'' = Inr ''A, b-B!D''" by code_simp
  with decrypt_vigenere_cursor [of "''BC''" "''B, b-D!E''"] show ?thesis by simp
qed

text \<open>
  C2. Round trip: for every non-empty key of letters A-Z and every text of uppercase
  letters A-Z, decrypting the forward-shift encryption of the text under the same key
  returns the text.
\<close>

theorem decrypt_encrypt_roundtrip:
  "key \<noteq> [] \<Longrightarrow> \<forall>k \<in> set key. is_AZ k \<Longrightarrow> \<forall>c \<in> set text. is_AZ c \<Longrightarrow>
     decrypt_vigenere (encrypt_vigenere text key) key = Inr text"
  by (simp add: decrypt_vigenere_eq encrypt_vigenere_def decrypt_encrypt_from)

theorem decrypt_encrypt_roundtrip_witness:
  "''LEMON'' \<noteq> [] \<and> list_all is_AZ ''LEMON'' \<and> list_all is_AZ ''ATTACKATDAWN''
   \<and> encrypt_vigenere ''ATTACKATDAWN'' ''LEMON'' = ''LXFOPVEFRNHR''
   \<and> decrypt_vigenere ''LXFOPVEFRNHR'' ''LEMON'' = Inr ''ATTACKATDAWN''"
proof -
  have k: "''LEMON'' \<noteq> []" by simp
  have ks: "\<forall>k \<in> set ''LEMON''. is_AZ k" by (simp add: is_AZ_def py_ord_def)
  have ts: "\<forall>c \<in> set ''ATTACKATDAWN''. is_AZ c" by (simp add: is_AZ_def py_ord_def)
  have e: "encrypt_vigenere ''ATTACKATDAWN'' ''LEMON'' = ''LXFOPVEFRNHR''"
    by code_simp
  from decrypt_encrypt_roundtrip [OF k ks ts] e k ks ts show ?thesis
    by (simp add: list_all_iff)
qed

section \<open>Properties of group\<close>

lemma length_every_kth:
  "0 < k \<Longrightarrow> length (every_kth k xs) = (length xs + k - 1) div k"
proof (induction k xs rule: every_kth.induct)
  case (1 k)
  then show ?case by simp
next
  case (2 k x xs)
  have step: "(length xs + k) div k = length xs div k + 1"
    using div_add_self2 [of k "length xs"] "2.prems" by simp
  show ?case
  proof (cases "length xs < k - 1")
    case True
    then have "length xs div k = 0" by simp
    with True 2 step show ?thesis by simp
  next
    case False
    then have "length xs - (k - 1) + k - 1 = length xs" using 2 by simp
    with 2 step show ?thesis by simp
  qed
qed

lemma every_kth_nth:
  "0 < k \<Longrightarrow> m * k < length xs \<Longrightarrow> every_kth k xs ! m = xs ! (m * k)"
proof (induction k xs arbitrary: m rule: every_kth.induct)
  case (1 k)
  then show ?case by simp
next
  case (2 k x xs)
  show ?case
  proof (cases m)
    case 0
    then show ?thesis by simp
  next
    case (Suc m')
    with 2 have "m' * k < length (drop (k - 1) xs)" by simp
    with 2 Suc have "every_kth k (drop (k - 1) xs) ! m' = drop (k - 1) xs ! (m' * k)" by simp
    also have "\<dots> = xs ! (k - 1 + m' * k)" using 2 Suc by simp
    also have "\<dots> = (x # xs) ! (m * k)" using 2 Suc by simp
    finally show ?thesis using Suc by simp
  qed
qed

lemma slice_from_step_length:
  "0 < k \<Longrightarrow> length (slice_from_step xs i k) = (length xs - i + k - 1) div k"
  by (simp add: slice_from_step_def length_every_kth)

lemma slice_from_step_nth:
  "0 < k \<Longrightarrow> i + m * k < length xs \<Longrightarrow> slice_from_step xs i k ! m = xs ! (i + m * k)"
  by (simp add: slice_from_step_def every_kth_nth)

lemma ceil_div_less:
  fixes k m x :: nat
  assumes "0 < k"
  shows "m < (x + k - 1) div k \<longleftrightarrow> m * k < x"
proof -
  have "m < (x + k - 1) div k \<longleftrightarrow> Suc m \<le> (x + k - 1) div k" by auto
  also have "\<dots> \<longleftrightarrow> Suc m * k \<le> x + k - 1"
    using assms by (simp only: less_eq_div_iff_mult_less_eq)
  also have "\<dots> \<longleftrightarrow> m * k < x" using assms by auto
  finally show ?thesis .
qed

lemma column_positions:
  assumes "0 < k" "i < k"
  shows "filter (\<lambda>j. j mod k = i) [0..<n]
           = map (\<lambda>m. i + m * k) [0..<(n - i + k - 1) div k]"
    (is "?L = ?R")
proof (rule sorted_distinct_set_unique)
  show "sorted ?L" by (simp add: sorted_filter [where f = "\<lambda>x. x", simplified])
  show "distinct ?L" by simp
  have mono: "sorted_wrt (\<lambda>a b. i + a * k \<le> i + b * k) [0..<(n - i + k - 1) div k]"
    by (rule sorted_wrt_mono_rel [OF _ sorted_upt]) simp
  then show "sorted ?R" by (simp add: sorted_map)
  have "inj_on (\<lambda>m. i + m * k) (set [0..<(n - i + k - 1) div k])"
    using assms by (auto intro: inj_onI)
  then show "distinct ?R" by (simp add: distinct_map)
  show "set ?L = set ?R"
  proof (intro set_eqI iffI)
    fix j assume "j \<in> set ?L"
    then have j: "j < n" "j mod k = i" by auto
    then have eq: "j = i + (j div k) * k" by (metis add.commute div_mult_mod_eq)
    with j have "(j div k) * k < n - i" by linarith
    then have "j div k < (n - i + k - 1) div k"
      using ceil_div_less [OF assms(1), of "j div k" "n - i"] by simp
    with eq show "j \<in> set ?R" by (auto intro: image_eqI [where x = "j div k"])
  next
    fix j assume "j \<in> set ?R"
    then obtain m where m: "m < (n - i + k - 1) div k" "j = i + m * k" by auto
    then have "m * k < n - i" using ceil_div_less [OF assms(1), of m "n - i"] by simp
    with m assms show "j \<in> set ?L" by auto
  qed
qed

lemma slice_from_step_eq:
  assumes "0 < k" "i < k"
  shows "slice_from_step xs i k = map (nth xs) (filter (\<lambda>j. j mod k = i) [0..<length xs])"
proof (rule nth_equalityI)
  show len: "length (slice_from_step xs i k)
      = length (map (nth xs) (filter (\<lambda>j. j mod k = i) [0..<length xs]))"
    using assms by (simp add: column_positions slice_from_step_length)
  fix m assume "m < length (slice_from_step xs i k)"
  then have m: "m < (length xs - i + k - 1) div k"
    using assms by (simp add: slice_from_step_length)
  then have "m * k < length xs - i" using ceil_div_less [OF assms(1), of m "length xs - i"] by simp
  then have "i + m * k < length xs" by linarith
  with m assms show "slice_from_step xs i k ! m
      = map (nth xs) (filter (\<lambda>j. j mod k = i) [0..<length xs]) ! m"
    by (simp add: column_positions slice_from_step_nth)
qed

lemma sum_list_class_sizes:
  "\<forall>x \<in> set xs. f x < k \<Longrightarrow>
     sum_list (map (\<lambda>i. length (filter (\<lambda>j. f j = i) xs)) [0..<k]) = length xs"
proof (induction xs)
  case Nil
  then show ?case by simp
next
  case (Cons x xs)
  then have fx: "f x < k" by simp
  have "sum_list (map (\<lambda>i. length (filter (\<lambda>j. f j = i) (x # xs))) [0..<k])
      = sum_list (map (\<lambda>i. (if f x = i then 1 else 0) + length (filter (\<lambda>j. f j = i) xs)) [0..<k])"
    by (intro arg_cong [where f = sum_list] map_cong) auto
  also have "\<dots> = sum_list (map (\<lambda>i. if f x = i then 1 else 0) [0..<k])
      + sum_list (map (\<lambda>i. length (filter (\<lambda>j. f j = i) xs)) [0..<k])"
    by (simp add: sum_list_addf)
  also have "sum_list (map (\<lambda>i. if f x = i then 1 else 0) [0..<k]) = (1::nat)"
    using fx by (simp add: interv_sum_list_conv_sum_set_nat)
  finally show ?case using Cons by simp
qed

lemma length_group: "length (group text k) = nat k"
  by (simp add: group_def)

lemma group_nth:
  "i < nat k \<Longrightarrow>
     group text k ! i = map (nth text) (filter (\<lambda>j. j mod nat k = i) [0..<length text])"
  by (simp add: group_def slice_from_step_eq)

lemma group_total_length:
  "1 \<le> k \<Longrightarrow> sum_list (map length (group text k)) = length text"
proof -
  assume k: "1 \<le> k"
  have "map length (group text k)
      = map (\<lambda>i. length (filter (\<lambda>j. j mod nat k = i) [0..<length text])) [0..<nat k]"
    using k by (simp add: group_def slice_from_step_eq)
  moreover have "\<forall>x \<in> set [0..<length text]. x mod nat k < nat k" using k by simp
  ultimately show ?thesis
    using sum_list_class_sizes [of "[0..<length text]" "\<lambda>j. j mod nat k" "nat k"] by simp
qed

lemma interleave_group:
  assumes "1 \<le> k"
  shows "interleave (group text k) = text"
proof (rule nth_equalityI)
  show "length (interleave (group text k)) = length text"
    using assms by (simp add: interleave_def group_total_length)
  fix j assume "j < length (interleave (group text k))"
  then have j: "j < length text" using assms by (simp add: interleave_def group_total_length)
  have k: "0 < nat k" using assms by simp
  then have i: "j mod nat k < nat k" by simp
  have "group text k ! (j mod nat k) ! (j div nat k)
      = slice_from_step text (j mod nat k) (nat k) ! (j div nat k)"
    using i by (simp add: group_def)
  also have "\<dots> = text ! (j mod nat k + j div nat k * nat k)"
    using j k by (intro slice_from_step_nth) simp_all
  also have "\<dots> = text ! j" by simp
  finally show "interleave (group text k) ! j = text ! j"
    using j assms by (simp add: interleave_def group_total_length length_group)
qed

text \<open>
  C8. For every text and every key length \<open>k \<ge> 1\<close>, \<open>group(text, k)\<close> has \<open>k\<close> columns,
  re-interleaving them in column order (position \<open>j\<close> from column \<open>j mod k\<close>) gives back
  the text, and column \<open>i\<close> is exactly the characters of the text at the positions
  congruent to \<open>i\<close> modulo \<open>k\<close>, in order.
\<close>

theorem group_interleave:
  "1 \<le> k \<Longrightarrow>
     length (group text k) = nat k \<and> interleave (group text k) = text \<and>
     (\<forall>i < nat k.
        group text k ! i = map (nth text) (filter (\<lambda>j. j mod nat k = i) [0..<length text]))"
  by (simp add: length_group interleave_group group_nth)

theorem group_interleave_witness:
  "(1::int) \<le> 3 \<and> group ''ABCDEFGH'' 3 = [''ADG'', ''BEH'', ''CF'']
     \<and> interleave [''ADG'', ''BEH'', ''CF''] = ''ABCDEFGH''"
proof -
  have g: "group ''ABCDEFGH'' 3 = [''ADG'', ''BEH'', ''CF'']" by code_simp
  from group_interleave [of 3 "''ABCDEFGH''"] g show ?thesis by simp
qed

section \<open>Properties of get_divisors\<close>

declare isqrt_search.simps [simp del]

lemma isqrt_search_bounds:
  "r * r \<le> n \<Longrightarrow> isqrt_search r n * isqrt_search r n \<le> n
     \<and> n < (isqrt_search r n + 1) * (isqrt_search r n + 1)"
proof (induction r n rule: isqrt_search.induct)
  case (1 r n)
  show ?case
  proof (cases "(r + 1) * (r + 1) \<le> n")
    case True
    with "1.IH" show ?thesis by (subst (1 2 3 4) isqrt_search.simps) simp
  next
    case False
    with "1.prems" show ?thesis by (subst (1 2 3 4) isqrt_search.simps) simp
  qed
qed

lemma isqrt_bounds:
  assumes "0 \<le> n"
  shows "\<exists>s. isqrt n = Inr s \<and> 0 \<le> s \<and> s * s \<le> n \<and> n < (s + 1) * (s + 1)"
proof -
  define s where "s = isqrt_search 0 (nat n)"
  from isqrt_search_bounds [of 0 "nat n"]
  have b: "s * s \<le> nat n" "nat n < (s + 1) * (s + 1)" by (simp_all add: s_def)
  from b(1) have "int (s * s) \<le> int (nat n)" by (simp only: of_nat_le_iff)
  then have "int s * int s \<le> n" using assms by simp
  moreover from b(2) have "int (nat n) < int ((s + 1) * (s + 1))" by (simp only: of_nat_less_iff)
  then have "n < (int s + 1) * (int s + 1)" using assms by (simp add: algebra_simps)
  ultimately show ?thesis using assms by (simp add: isqrt_def s_def)
qed


lemma fold_divisors_step:
  "fold (divisors_step n) xs S
     = S \<union> {d. \<exists>i \<in> set xs. n mod i = 0 \<and> (d = i \<or> d = n div i)}"
  by (induction xs arbitrary: S) (auto simp: divisors_step_def)

lemma finite_fold_divisors_step:
  "finite S \<Longrightarrow> finite (fold (divisors_step n) xs S)"
  by (induction xs arbitrary: S) (simp_all add: divisors_step_def)

lemma divisor_set_eq:
  fixes n s :: int
  assumes n: "2 \<le> n" and s: "0 \<le> s" "s * s \<le> n" "n < (s + 1) * (s + 1)"
  shows "insert n {d. \<exists>i \<in> set [2..s]. n mod i = 0 \<and> (d = i \<or> d = n div i)}
           = {d. 2 \<le> d \<and> d dvd n}"
    (is "?A = ?B")
proof (intro set_eqI iffI)
  fix d assume "d \<in> ?A"
  then consider "d = n"
    | i where "2 \<le> i" "i \<le> s" "n mod i = 0" "d = i"
    | i where "2 \<le> i" "i \<le> s" "n mod i = 0" "d = n div i"
    by auto
  then show "d \<in> ?B"
  proof cases
    case 1
    with n show ?thesis by simp
  next
    case 2
    then show ?thesis by (simp add: dvd_eq_mod_eq_0)
  next
    case 3
    then have idvd: "i dvd n" by (simp add: dvd_eq_mod_eq_0)
    then have eq: "n = i * (n div i)" by simp
    have "i * i \<le> s * s" using 3 by (intro mult_mono) simp_all
    with s have "i * i \<le> n" by simp
    then have "i * i div i \<le> n div i" by (rule zdiv_mono1) (use 3 in simp)
    then have "i \<le> n div i" using 3 by simp
    moreover have "n div i dvd n" using eq by (metis dvd_triv_right)
    ultimately show ?thesis using 3 by simp
  qed
next
  fix d assume "d \<in> ?B"
  then have d: "2 \<le> d" "d dvd n" by simp_all
  define e where "e = n div d"
  from d have eq: "n = d * e" by (simp add: e_def)
  have epos: "1 \<le> e"
  proof (rule ccontr)
    assume "\<not> 1 \<le> e"
    then have "e \<le> 0" by simp
    with d have "d * e \<le> 0" by (simp add: mult_le_0_iff)
    with eq n show False by simp
  qed
  show "d \<in> ?A"
  proof (cases "d \<le> s")
    case True
    with d show ?thesis by (auto simp: dvd_eq_mod_eq_0)
  next
    case False
    then have ds: "s + 1 \<le> d" by simp
    have es: "e \<le> s"
    proof (rule ccontr)
      assume "\<not> e \<le> s"
      then have "s + 1 \<le> e" by simp
      with ds s have "(s + 1) * (s + 1) \<le> d * e" by (intro mult_mono) simp_all
      with eq s show False by simp
    qed
    show ?thesis
    proof (cases "e = 1")
      case True
      with eq show ?thesis by simp
    next
      case False
      with epos have e2: "2 \<le> e" by simp
      have "n mod e = 0" using eq by simp
      moreover have "d = n div e" using eq e2 by simp
      ultimately have "\<exists>i \<in> set [2..s]. n mod i = 0 \<and> (d = i \<or> d = n div i)"
        using e2 es by (intro bexI [where x = e]) simp_all
      then show ?thesis by simp
    qed
  qed
qed

lemma get_divisors_set:
  assumes "2 \<le> n"
  shows "\<exists>ds. get_divisors n = Inr ds \<and> sorted ds \<and> distinct ds
           \<and> set ds = {d. 2 \<le> d \<and> d dvd n}"
proof -
  from assms have "0 \<le> n" by simp
  from isqrt_bounds [OF this] obtain s where
    s: "isqrt n = Inr s" "0 \<le> s" "s * s \<le> n" "n < (s + 1) * (s + 1)" by blast
  define D where "D = insert n (fold (divisors_step n) [2..s] {})"
  have fin: "finite D" by (simp add: D_def finite_fold_divisors_step)
  have "D = {d. 2 \<le> d \<and> d dvd n}"
    using divisor_set_eq [OF assms s(2-4)] by (simp add: D_def fold_divisors_step)
  moreover have "get_divisors n = Inr (sorted_list_of_set D)"
    by (simp add: get_divisors_def s(1) D_def)
  ultimately show ?thesis using fin by simp
qed

text \<open>
  C3, amended. For every \<open>n \<ge> 2\<close>, \<open>get_divisors(n)\<close> returns an ascending sequence without
  repetition that is non-empty, contains \<open>n\<close>, contains no value above \<open>n\<close> or below 2, and
  contains exactly the integers \<open>\<ge> 2\<close> that divide \<open>n\<close>. \<open>get_divisors(0)\<close> divides nothing
  by zero and returns the one-element sequence \<open>[0]\<close>, since \<open>n\<close> itself is always added.
\<close>

theorem get_divisors_spec:
  "get_divisors 0 = Inr [0] \<and>
   (2 \<le> n \<longrightarrow>
      (\<exists>ds. get_divisors n = Inr ds \<and> sorted ds \<and> distinct ds \<and> ds \<noteq> [] \<and> n \<in> set ds
         \<and> (\<forall>d \<in> set ds. 2 \<le> d \<and> d \<le> n)
         \<and> set ds = {d. 2 \<le> d \<and> d dvd n}))"
proof (intro conjI impI)
  show "get_divisors 0 = Inr [0]" by code_simp
next
  assume n: "2 \<le> n"
  from get_divisors_set [OF n] obtain ds where
    ds: "get_divisors n = Inr ds" "sorted ds" "distinct ds" "set ds = {d. 2 \<le> d \<and> d dvd n}"
    by blast
  from ds(4) n have mem: "n \<in> set ds" by simp
  then have ne: "ds \<noteq> []" by auto
  have "\<forall>d \<in> set ds. 2 \<le> d \<and> d \<le> n"
    using ds(4) n by (auto intro: zdvd_imp_le)
  with ds mem ne show "\<exists>ds. get_divisors n = Inr ds \<and> sorted ds \<and> distinct ds \<and> ds \<noteq> []
      \<and> n \<in> set ds \<and> (\<forall>d \<in> set ds. 2 \<le> d \<and> d \<le> n) \<and> set ds = {d. 2 \<le> d \<and> d dvd n}"
    by blast
qed

theorem get_divisors_spec_witness:
  "(2::int) \<le> 12 \<and> get_divisors 12 = Inr [2, 3, 4, 6, 12] \<and> get_divisors 0 = Inr [0]"
proof -
  have "get_divisors 12 = Inr [2, 3, 4, 6, 12]" by code_simp
  with get_divisors_spec [of 12] show ?thesis by simp
qed

text \<open>C3 as stated fails at \<open>n = 0\<close>: the result is \<open>[0]\<close>, not the empty sequence.\<close>

theorem get_divisors_zero_counterexample:
  "get_divisors 0 = Inr [0] \<and> get_divisors 0 \<noteq> Inr []"
  by code_simp

section \<open>Properties of Counter and index_of_coincidence\<close>

lemma fold_counter_add_map_of:
  "map_of (fold counter_add xs acc) x
     = (if x \<in> set xs \<or> x \<in> fst ` set acc
        then Some (dict_get acc x 0 + int (count_list xs x)) else None)"
proof (induction xs arbitrary: acc)
  case Nil
  show ?case
    by (auto simp: dict_get_def map_of_eq_None_iff split: option.splits)
next
  case (Cons y ys)
  show ?case
    by (simp add: Cons.IH) (auto simp: counter_add_def dict_get_def update_conv' dom_update)
qed

lemma fold_counter_add_distinct:
  "distinct (map fst acc) \<Longrightarrow> distinct (map fst (fold counter_add xs acc))"
  by (induction xs arbitrary: acc) (simp_all add: counter_add_def distinct_update)

lemma fold_counter_add_keys:
  "fst ` set (fold counter_add xs acc) = set xs \<union> fst ` set acc"
  by (induction xs arbitrary: acc) (auto simp: counter_add_def dom_update)

lemma Counter_map_of:
  "map_of (Counter xs) x = (if x \<in> set xs then Some (int (count_list xs x)) else None)"
  by (simp add: Counter_def fold_counter_add_map_of dict_get_def)

lemma Counter_distinct: "distinct (map fst (Counter xs))"
  by (simp add: Counter_def fold_counter_add_distinct)

lemma Counter_keys: "fst ` set (Counter xs) = set xs"
  by (simp add: Counter_def fold_counter_add_keys)

lemma sum_list_values:
  "distinct (map fst al) \<Longrightarrow>
     sum_list (map g (map snd al)) = (\<Sum>k \<in> fst ` set al. g (the (map_of al k)))"
proof (induction al)
  case Nil
  then show ?case by simp
next
  case (Cons p al)
  obtain k v where p: "p = (k, v)" by (cases p)
  from Cons.prems p have k: "k \<notin> fst ` set al" and d: "distinct (map fst al)" by auto
  have "(\<Sum>k' \<in> fst ` set (p # al). g (the (map_of (p # al) k')))
      = g v + (\<Sum>k' \<in> fst ` set al. g (the (map_of (p # al) k')))"
    using k p by simp
  also have "(\<Sum>k' \<in> fst ` set al. g (the (map_of (p # al) k')))
      = (\<Sum>k' \<in> fst ` set al. g (the (map_of al k')))"
    using k p by (intro sum.cong) auto
  finally show ?case using Cons.IH [OF d] p by simp
qed

lemma ic_numerator_eq:
  "ic_numerator text
     = (\<Sum>c \<in> set text. int (count_list text c) * (int (count_list text c) - 1))"
proof -
  have "ic_numerator text
      = (\<Sum>k \<in> fst ` set (Counter text). (\<lambda>f. f * (f - 1)) (the (map_of (Counter text) k)))"
    unfolding ic_numerator_def by (rule sum_list_values [OF Counter_distinct])
  also have "\<dots> = (\<Sum>c \<in> set text. int (count_list text c) * (int (count_list text c) - 1))"
    by (intro sum.cong) (simp_all add: Counter_keys Counter_map_of)
  finally show ?thesis .
qed


lemma count_list_replicate: "count_list (replicate n c) c = n"
  by (induction n) simp_all

lemma ic_numerator_bounds:
  "0 \<le> ic_numerator text
     \<and> ic_numerator text \<le> int (length text) * (int (length text) - 1)"
proof -
  define N where "N = int (length text)"
  define f where "f c = int (count_list text c)" for c
  have num: "ic_numerator text = (\<Sum>c \<in> set text. f c * (f c - 1))"
    by (simp add: ic_numerator_eq f_def)
  have total: "(\<Sum>c \<in> set text. f c) = N"
    using sum_count_set [of "text" "set text"] by (simp add: f_def N_def flip: of_nat_sum)
  have pos: "1 \<le> f c" if "c \<in> set text" for c
    using that count_list_0_iff [of "text" c] by (simp add: f_def)
  have le: "f c \<le> N" for c
    by (simp add: f_def N_def count_le_length)
  have "0 \<le> (\<Sum>c \<in> set text. f c * (f c - 1))"
    by (intro sum_nonneg mult_nonneg_nonneg) (use pos in fastforce)+
  moreover have "(\<Sum>c \<in> set text. f c * (f c - 1)) \<le> (\<Sum>c \<in> set text. f c * (N - 1))"
  proof (rule sum_mono)
    fix c assume "c \<in> set text"
    from pos [OF this] le [of c] show "f c * (f c - 1) \<le> f c * (N - 1)"
      by (intro mult_left_mono) simp_all
  qed
  moreover have "(\<Sum>c \<in> set text. f c * (N - 1)) = N * (N - 1)"
    by (simp add: total flip: sum_distrib_right)
  ultimately show ?thesis by (simp add: num N_def)
qed

text \<open>
  C6. For a text of length \<open>N \<ge> 2\<close>, \<open>index_of_coincidence\<close> is the sum of \<open>f (f - 1)\<close> over
  the letter frequencies \<open>f\<close> of the text, divided by \<open>N (N - 1)\<close>; for \<open>N \<le> 1\<close> it is 0;
  and for 100 copies of one letter it is 1.
\<close>

theorem index_of_coincidence_formula:
  "(2 \<le> length text \<longrightarrow>
      index_of_coincidence text
        = (\<Sum>c \<in> set text. real (count_list text c) * (real (count_list text c) - 1))
            / (real (length text) * (real (length text) - 1)))
   \<and> (length text \<le> 1 \<longrightarrow> index_of_coincidence text = 0)
   \<and> index_of_coincidence (replicate 100 c) = 1"
proof (intro conjI impI)
  assume "2 \<le> length text"
  then show "index_of_coincidence text
        = (\<Sum>c \<in> set text. real (count_list text c) * (real (count_list text c) - 1))
            / (real (length text) * (real (length text) - 1))"
    by (simp add: index_of_coincidence_def ic_numerator_eq)
next
  assume "length text \<le> 1"
  then show "index_of_coincidence text = 0"
    by (simp add: index_of_coincidence_def)
next
  have "set (replicate 100 c) = {c}" by simp
  then have "ic_numerator (replicate 100 c) = 9900"
    by (simp add: ic_numerator_eq count_list_replicate)
  then show "index_of_coincidence (replicate 100 c) = 1"
    by (simp add: index_of_coincidence_def)
qed

theorem index_of_coincidence_formula_witness:
  "2 \<le> length ''AAB'' \<and> index_of_coincidence ''AAB'' = 1 / 3
   \<and> length ''A'' \<le> 1 \<and> index_of_coincidence ''A'' = 0
   \<and> index_of_coincidence (replicate 100 CHR ''A'') = 1"
proof -
  have s: "set ''AAB'' = {CHR ''A'', CHR ''B''}" by auto
  from index_of_coincidence_formula [of "''AAB''" "CHR ''A''"]
       index_of_coincidence_formula [of "''A''" "CHR ''A''"]
  show ?thesis by (simp add: s)
qed

text \<open>
  C9. For every text, the numerator is never negative and never exceeds \<open>N (N - 1)\<close>, and
  \<open>index_of_coincidence\<close> lies in the closed interval from 0 to 1.
\<close>

theorem index_of_coincidence_range:
  "0 \<le> ic_numerator text
   \<and> ic_numerator text \<le> int (length text) * (int (length text) - 1)
   \<and> 0 \<le> index_of_coincidence text \<and> index_of_coincidence text \<le> 1"
proof -
  note b = ic_numerator_bounds [of "text"]
  have "0 \<le> index_of_coincidence text"
    using b by (simp add: index_of_coincidence_def Let_def)
  moreover have "index_of_coincidence text \<le> 1"
  proof (cases "int (length text) \<le> 1")
    case True
    then show ?thesis by (simp add: index_of_coincidence_def)
  next
    case False
    then have "0 < int (length text) * (int (length text) - 1)"
      by (intro mult_pos_pos) auto
    then have "0 < real_of_int (int (length text) * (int (length text) - 1))"
      by (simp only: of_int_0_less_iff)
    moreover from b have "real_of_int (ic_numerator text)
        \<le> real_of_int (int (length text) * (int (length text) - 1))"
      by (simp only: of_int_le_iff)
    ultimately show ?thesis using False
      by (simp only: index_of_coincidence_def Let_def if_False divide_le_eq_1_pos)
  qed
  ultimately show ?thesis using b by simp
qed

section \<open>Properties of chi_squared\<close>

lemma freq_pt_letters: "freq_pt = map (\<lambda>l. (letter l, expected_pct l)) [0..25]"
  by code_simp


lemma fold_chi_step:
  "fold (chi_step obs_counts total_len shift) table acc
     = acc + sum_list (map (\<lambda>p. chi_step obs_counts total_len shift p 0) table)"
proof (induction table arbitrary: acc)
  case Nil
  then show ?case by simp
next
  case (Cons p table)
  obtain L E where p: "p = (L, E)" by (cases p)
  show ?case by (simp add: Cons.IH p Let_def)
qed

lemma py_ord_letter: "0 \<le> l \<Longrightarrow> l \<le> 25 \<Longrightarrow> py_ord (letter l) - py_ord CHR ''A'' = l"
proof -
  assume l: "0 \<le> l" "l \<le> 25"
  have A: "py_ord CHR ''A'' = 65" by (simp add: py_ord_def)
  from l have "py_ord (py_chr (65 + l)) = 65 + l" by (intro py_ord_chr) simp_all
  then show ?thesis by (simp add: letter_def A)
qed

lemma chi_step_letter:
  assumes "0 \<le> l" "l \<le> 25"
  shows "chi_step obs_counts total_len shift (letter l, expected_pct l) 0
           = (observed_pct obs_counts total_len ((l + shift) mod 26) - expected_pct l)\<^sup>2
               / (if expected_pct l = 0 then 1 else expected_pct l)"
  by (simp add: py_ord_letter [OF assms] observed_pct_def Let_def)
     (simp add: letter_def add.commute)

text \<open>
  C7. For a column of length \<open>total_len \<ge> 1\<close>, its letter counts and a shift \<open>s\<close>,
  \<open>chi_squared\<close> returns the sum, over the 26 reference letters \<open>L\<close> with expected
  percentage \<open>E\<close>, of \<open>(O - E)\<^sup>2 / E'\<close>, where \<open>O\<close> is the observed percentage of the letter
  \<open>(L + s) mod 26\<close> and \<open>E'\<close> is \<open>E\<close>, or 1 when \<open>E = 0\<close>.
\<close>

theorem chi_squared_formula:
  "1 \<le> total_len \<Longrightarrow>
     chi_squared obs_counts total_len shift =
       Inr (\<Sum>l = 0..25.
              (observed_pct obs_counts total_len ((l + shift) mod 26) - expected_pct l)\<^sup>2
                / (if expected_pct l = 0 then 1 else expected_pct l))"
proof -
  assume t: "1 \<le> total_len"
  have ne: "freq_pt \<noteq> []" by (simp add: freq_pt_def)
  have "fold (chi_step obs_counts total_len shift) freq_pt 0
      = sum_list (map (\<lambda>l. chi_step obs_counts total_len shift (letter l, expected_pct l) 0) [0..25])"
    by (subst fold_chi_step, subst freq_pt_letters) (simp add: comp_def)
  also have "\<dots> = (\<Sum>l \<in> set [0..25].
       chi_step obs_counts total_len shift (letter l, expected_pct l) 0)"
    by (rule sum_list_distinct_conv_sum_set) simp
  also have "\<dots> = (\<Sum>l = 0..25.
              (observed_pct obs_counts total_len ((l + shift) mod 26) - expected_pct l)\<^sup>2
                / (if expected_pct l = 0 then 1 else expected_pct l))"
    by (intro sum.cong refl chi_step_letter) simp_all
  finally show ?thesis using t by (simp add: chi_squared_def chi_squared_on_def)
qed


theorem chi_squared_formula_witness:
  "(1::int) \<le> 3
   \<and> chi_squared (Counter ''AAB'') 3 0 = Inr (344666901333907 / 260830465000)
   \<and> (\<Sum>l = 0..25.
          (observed_pct (Counter ''AAB'') 3 ((l + 0) mod 26) - expected_pct l)\<^sup>2
            / (if expected_pct l = 0 then 1 else expected_pct l))
       = 344666901333907 / 260830465000"
proof -
  have v: "chi_squared (Counter ''AAB'') 3 0 = Inr (344666901333907 / 260830465000)"
    by code_simp
  from chi_squared_formula [of 3 "Counter ''AAB''" 0] v show ?thesis by simp
qed

section \<open>Properties of kasiski_test\<close>

lemma first_seen_snoc:
  "first_seen (xs @ [x]) = (if x \<in> set xs then first_seen xs else first_seen xs @ [x])"
  by (simp add: first_seen_def)

lemma set_first_seen: "set (first_seen xs) = set xs"
  by (simp add: first_seen_def)

lemma distinct_first_seen: "distinct (first_seen xs)"
  by (simp add: first_seen_def)

lemma Counter_snoc: "Counter (xs @ [x]) = counter_add x (Counter xs)"
  by (simp add: Counter_def)

lemma Counter_keys_order: "map fst (Counter xs) = first_seen xs"
proof (induction xs rule: rev_induct)
  case Nil
  show ?case by (simp add: Counter_def first_seen_def)
next
  case (snoc x xs)
  have "set (map fst (Counter xs)) = set xs" using Counter_keys [of xs] by simp
  then show ?case
    by (simp add: Counter_snoc counter_add_def update_keys first_seen_snoc snoc.IH
          del: set_map)
qed

lemma alist_rebuild:
  "distinct (map fst al) \<Longrightarrow> map (\<lambda>k. (k, the (map_of al k))) (map fst al) = al"
proof (induction al)
  case Nil
  then show ?case by simp
next
  case (Cons p al)
  obtain k v where p: "p = (k, v)" by (cases p)
  from Cons.prems p have k: "k \<notin> fst ` set al" and d: "distinct (map fst al)" by auto
  have "map (\<lambda>k'. (k', the (map_of (p # al) k'))) (map fst al)
      = map (\<lambda>k'. (k', the (map_of al k'))) (map fst al)"
    using k p by (intro map_cong) auto
  with Cons.IH [OF d] p show ?case by simp
qed

lemma Counter_eq_tally: "Counter xs = tally xs"
proof -
  have "Counter xs = map (\<lambda>k. (k, the (map_of (Counter xs) k))) (map fst (Counter xs))"
    by (rule alist_rebuild [OF Counter_distinct, symmetric])
  also have "\<dots> = map (\<lambda>k. (k, the (map_of (Counter xs) k))) (first_seen xs)"
    by (simp only: Counter_keys_order)
  also have "\<dots> = tally xs"
    unfolding tally_def by (intro map_cong) (simp_all add: Counter_map_of set_first_seen)
  finally show ?thesis .
qed

lemma most_common_Counter: "most_common (Counter xs) k = top_votes k xs"
  by (simp add: most_common_def top_votes_def Counter_eq_tally)

lemma map_fst_tally: "map fst (tally xs) = first_seen xs"
  by (simp add: tally_def comp_def)

lemma set_tally: "set (tally xs) = (\<lambda>x. (x, int (count_list xs x))) ` set xs"
  by (simp add: tally_def set_first_seen)

lemma top_votes_length: "length (top_votes k xs) \<le> nat k"
  by (simp add: top_votes_def)

lemma top_votes_subset: "set (top_votes k xs) \<subseteq> set (tally xs)"
  using set_take_subset [of "nat k" "sort_key (\<lambda>p. - snd p) (tally xs)"]
  by (simp add: top_votes_def)

lemma top_votes_distinct: "distinct (map fst (top_votes k xs))"
proof -
  have "distinct (map fst (sort_key (\<lambda>p. - snd p) (tally xs)))"
  proof (rule iffD2 [OF distinct_map], intro conjI)
    have d: "distinct (map fst (tally xs))" by (simp add: map_fst_tally distinct_first_seen)
    then show "distinct (sort_key (\<lambda>p. - snd p) (tally xs))"
      by (simp add: distinct_map)
    from d show "inj_on fst (set (sort_key (\<lambda>p. - snd p) (tally xs)))"
      by (simp add: distinct_map)
  qed
  then show ?thesis
    unfolding top_votes_def take_map [symmetric] by (rule distinct_take)
qed

lemma top_votes_counts:
  "(l, c) \<in> set (top_votes k xs) \<Longrightarrow> l \<in> set xs \<and> c = int (count_list xs l) \<and> 1 \<le> c"
proof -
  assume "(l, c) \<in> set (top_votes k xs)"
  with top_votes_subset [of k xs] have "(l, c) \<in> set (tally xs)" by blast
  then have "l \<in> set xs" "c = int (count_list xs l)" by (auto simp: set_tally)
  moreover from this have "count_list xs l \<noteq> 0" by (simp add: count_list_0_iff)
  ultimately show ?thesis by simp
qed

lemma top_votes_descending: "sorted_wrt (\<lambda>a b. snd b \<le> snd a) (top_votes k xs)"
proof -
  have "sorted (map (\<lambda>p. - snd p) (sort_key (\<lambda>p. - snd p) (tally xs)))"
    by (rule sorted_sort_key)
  then have "sorted_wrt (\<lambda>a b. snd b \<le> snd a) (sort_key (\<lambda>p. - snd p) (tally xs))"
    by (simp add: sorted_map)
  then show ?thesis unfolding top_votes_def by (rule sorted_wrt_take)
qed

lemma top_votes_ties:
  "prefix (filter (\<lambda>p. snd p = c) (top_votes k xs)) (filter (\<lambda>p. snd p = c) (tally xs))"
proof -
  define S where "S = sort_key (\<lambda>p. - snd p) (tally xs)"
  have "filter (\<lambda>p. snd p = c) S = filter (\<lambda>p. - snd p = - c) S" by simp
  also have "\<dots> = filter (\<lambda>p. - snd p = - c) (tally xs)"
    unfolding S_def by (rule sort_key_stable)
  finally have st: "filter (\<lambda>p. snd p = c) S = filter (\<lambda>p. snd p = c) (tally xs)" by simp
  have "filter (\<lambda>p. snd p = c) S
      = filter (\<lambda>p. snd p = c) (take (nat k) S) @ filter (\<lambda>p. snd p = c) (drop (nat k) S)"
    by (simp flip: filter_append)
  then have "prefix (filter (\<lambda>p. snd p = c) (take (nat k) S)) (filter (\<lambda>p. snd p = c) S)"
    by (simp add: prefix_def)
  then show ?thesis by (simp add: top_votes_def S_def [symmetric] st)
qed

lemma top_votes_best:
  assumes "p \<in> set (tally xs)" "p \<notin> set (top_votes k xs)" "q \<in> set (top_votes k xs)"
  shows "snd p \<le> snd q"
proof -
  define S where "S = sort_key (\<lambda>p. - snd p) (tally xs)"
  have "sorted (map (\<lambda>p. - snd p) S)" unfolding S_def by (rule sorted_sort_key)
  then have "sorted_wrt (\<lambda>a b. snd b \<le> snd a) (take (nat k) S @ drop (nat k) S)"
    by (simp add: sorted_map)
  then have *: "\<forall>a \<in> set (take (nat k) S). \<forall>b \<in> set (drop (nat k) S). snd b \<le> snd a"
    unfolding sorted_wrt_append by blast
  have "set S = set (take (nat k) S) \<union> set (drop (nat k) S)"
    by (metis append_take_drop_id set_append)
  with assms(1,2) have "p \<in> set (drop (nat k) S)"
    by (auto simp: top_votes_def S_def)
  with * assms(3) show ?thesis by (auto simp: top_votes_def S_def)
qed


lemma get_divisors_total: "0 \<le> d \<Longrightarrow> get_divisors d = Inr (the_divisors d)"
  by (simp add: the_divisors_def get_divisors_def isqrt_def)

lemma set_update_subset: "set (AList.update k v al) \<subseteq> insert (k, v) (set al)"
  by (induction al) auto

lemma dict_get_cases:
  "dict_get d k dflt = dflt \<or> (k, dict_get d k dflt) \<in> set d"
  by (auto simp: dict_get_def dest: map_of_SomeD split: option.splits)

lemma dict_append_entries:
  assumes "(g, vs) \<in> set (dict_append d k v)"
  shows "(g, vs) \<in> set d \<or> vs = [v] \<or> (\<exists>ws. (k, ws) \<in> set d \<and> vs = ws @ [v])"
proof -
  from assms set_update_subset [of k "dict_get d k [] @ [v]" d]
  have "(g, vs) \<in> set d \<or> vs = dict_get d k [] @ [v]"
    by (auto simp: dict_append_def)
  with dict_get_cases [of d k "[]"] show ?thesis by auto
qed

lemma fold_dict_append_sorted:
  fixes xs :: "int list"
  assumes "sorted_wrt (<) xs"
    and "\<forall>(g, ps) \<in> set d. sorted ps \<and> (\<forall>p \<in> set ps. \<forall>x \<in> set xs. p < x)"
  shows "\<forall>(g, ps) \<in> set (fold (\<lambda>i d. dict_append d (f i) i) xs d). sorted ps"
  using assms
proof (induction xs arbitrary: d)
  case Nil
  then show ?case by auto
next
  case (Cons x xs)
  have "\<forall>(g, ps) \<in> set (dict_append d (f x) x).
          sorted ps \<and> (\<forall>p \<in> set ps. \<forall>y \<in> set xs. p < y)"
  proof (clarify, intro conjI ballI)
    fix g ps
    assume m: "(g, ps) \<in> set (dict_append d (f x) x)"
    from dict_append_entries [OF m] Cons.prems(2)
    show "sorted ps" by (fastforce simp: sorted_append)
    fix p y assume "p \<in> set ps" "y \<in> set xs"
    with dict_append_entries [OF m] Cons.prems
    show "p < y" by fastforce
  qed
  moreover from Cons.prems(1) have "sorted_wrt (<) xs" by simp
  ultimately show ?case using Cons.IH by simp
qed

lemma extract_ngram_positions_sorted:
  "\<forall>(g, ps) \<in> set (extract_ngram_positions text n threshold). sorted ps"
proof -
  have "\<forall>(g, ps) \<in> set (fold (\<lambda>i d. dict_append d (py_slice text i (i + n)) i)
           [0..int (length text) - n] []). sorted ps"
    by (rule fold_dict_append_sorted) simp_all
  then show ?thesis by (auto simp: extract_ngram_positions_def)
qed

lemma nonneg_values_iff: "nonneg_values d \<longleftrightarrow> (\<forall>(g, vs) \<in> set d. \<forall>v \<in> set vs. 0 \<le> v)"
  by (auto simp: nonneg_values_def list_all_iff)

lemma dict_append_nonneg:
  "nonneg_values d \<Longrightarrow> 0 \<le> v \<Longrightarrow> nonneg_values (dict_append d k v)"
  unfolding nonneg_values_iff
  by (clarify, drule dict_append_entries) fastforce

lemma pair_distances_nonneg:
  assumes "sorted pos_list" "nonneg_values d"
  shows "nonneg_values (pair_distances ng pos_list d)"
  unfolding pair_distances_def
proof (rule fold_invariant [where Q = "\<lambda>i. i < length pos_list - 1"])
  show "nonneg_values d" by fact
  show "\<And>i. i \<in> set [0..<length pos_list - 1] \<Longrightarrow> i < length pos_list - 1" by simp
  fix i d'
  assume i: "i < length pos_list - 1" and d': "nonneg_values d'"
  show "nonneg_values (fold (\<lambda>j distances. dict_append distances ng (pos_list ! j - pos_list ! i))
           [i + 1..<length pos_list] d')"
  proof (rule fold_invariant [where Q = "\<lambda>j. i < j \<and> j < length pos_list"])
    show "nonneg_values d'" by fact
    show "\<And>j. j \<in> set [i + 1..<length pos_list] \<Longrightarrow> i < j \<and> j < length pos_list" by simp
    fix j d''
    assume j: "i < j \<and> j < length pos_list" and d'': "nonneg_values d''"
    with assms(1) have "pos_list ! i \<le> pos_list ! j" by (simp add: sorted_nth_mono)
    with d'' show "nonneg_values (dict_append d'' ng (pos_list ! j - pos_list ! i))"
      by (intro dict_append_nonneg) simp_all
  qed
qed

lemma compute_pairwise_distances_nonneg:
  assumes "\<forall>(g, ps) \<in> set positions. sorted ps"
  shows "nonneg_values (compute_pairwise_distances positions)"
  unfolding compute_pairwise_distances_def
proof (rule fold_invariant [where Q = "\<lambda>(g, ps). sorted ps"])
  show "nonneg_values []" by (simp add: nonneg_values_def)
  show "\<And>x. x \<in> set positions \<Longrightarrow> (case x of (g, ps) \<Rightarrow> sorted ps)" using assms by auto
  show "\<And>x s. (case x of (g, ps) \<Rightarrow> sorted ps) \<Longrightarrow> nonneg_values s
      \<Longrightarrow> nonneg_values ((case x of (ng, pos_list) \<Rightarrow> pair_distances ng pos_list) s)"
    by (auto intro: pair_distances_nonneg)
qed

lemma factor_loop_eq:
  "\<forall>d \<in> set ds. 0 \<le> d \<Longrightarrow>
     factor_loop ds factor_list = Inr (factor_list @ concat (map the_divisors ds))"
  by (induction ds arbitrary: factor_list) (simp_all add: get_divisors_total)

lemma fold_append_keys:
  "fold (\<lambda>(key, _) list_a. list_a @ [key]) tops list_a = list_a @ map fst tops"
  by (induction tops arbitrary: list_a) (simp_all add: case_prod_beta)

lemma ngram_loop_eq:
  "nonneg_values distances \<Longrightarrow>
     ngram_loop top_k distances list_a = Inr (list_a @ capped_votes top_k distances)"
proof (induction distances arbitrary: list_a)
  case Nil
  then show ?case by (simp add: capped_votes_def)
next
  case (Cons p distances)
  obtain ng ds where p: "p = (ng, ds)" by (cases p)
  from Cons.prems p have ds: "\<forall>d \<in> set ds. 0 \<le> d" and rest: "nonneg_values distances"
    by (auto simp: nonneg_values_iff)
  show ?case
    using Cons.IH [OF rest]
    by (simp add: p factor_loop_eq [OF ds] most_common_Counter fold_append_keys
          capped_votes_def)
qed

lemma kasiski_test_eq:
  "kasiski_test text n top_k threshold
     = Inr (top_votes top_k
              (capped_votes top_k
                 (compute_pairwise_distances (extract_ngram_positions text n threshold))))"
proof -
  have "nonneg_values (compute_pairwise_distances (extract_ngram_positions text n threshold))"
    by (intro compute_pairwise_distances_nonneg extract_ngram_positions_sorted)
  then show ?thesis
    by (simp add: kasiski_test_def ngram_loop_eq most_common_Counter)
qed

lemma count_list_concat:
  "count_list (concat xss) x = sum_list (map (\<lambda>xs. count_list xs x) xss)"
  by (induction xss) simp_all

lemma distinct_count_le_1: "distinct xs \<Longrightarrow> count_list xs x \<le> 1"
  by (induction xs) auto

lemma capped_votes_count: "count_list (capped_votes top_k distances) l \<le> length distances"
proof -
  have "sum_list (map (\<lambda>p. count_list ((\<lambda>(ng, ds). map fst (top_votes top_k
           (concat (map the_divisors ds)))) p) l) distances)
      \<le> sum_list (map (\<lambda>p. 1) distances)"
    by (intro sum_list_mono)
       (auto simp: distinct_count_le_1 [OF top_votes_distinct, simplified])
  then show ?thesis
    by (simp add: capped_votes_def count_list_concat comp_def sum_list_triv)
qed


text \<open>
  C5. For every text, \<open>n\<close>, threshold and \<open>top_k \<ge> 1\<close>, \<open>kasiski_test\<close> returns, and its
  result is the \<open>top_k\<close> best entries of the tally of the capped votes, where each n-gram
  with distances votes once for each of the \<open>top_k\<close> most frequent divisors of its own
  distances. So no length gets more votes than there are such n-grams; the result has at
  most \<open>top_k\<close> pairs of distinct lengths, each with its number of votes, in descending
  order of votes; lengths with equal votes stand in first-encountered order; and no length
  left out has more votes than one in the result.
\<close>

theorem kasiski_test_capped_votes:
  "1 \<le> top_k \<Longrightarrow>
     (let distances = compute_pairwise_distances (extract_ngram_positions text n threshold);
          votes = capped_votes top_k distances;
          res = top_votes top_k votes
      in kasiski_test text n top_k threshold = Inr res
         \<and> (\<forall>l. count_list votes l \<le> length distances)
         \<and> length res \<le> nat top_k
         \<and> distinct (map fst res)
         \<and> (\<forall>(l, c) \<in> set res. l \<in> set votes \<and> c = int (count_list votes l))
         \<and> sorted_wrt (\<lambda>a b. snd b \<le> snd a) res
         \<and> (\<forall>c. prefix (filter (\<lambda>p. snd p = c) res) (filter (\<lambda>p. snd p = c) (tally votes)))
         \<and> (\<forall>p \<in> set (tally votes). p \<notin> set res \<longrightarrow> (\<forall>q \<in> set res. snd p \<le> snd q)))"
  unfolding Let_def
proof (intro conjI allI ballI impI)
  fix p q
  assume "p \<in> set (tally (capped_votes top_k
            (compute_pairwise_distances (extract_ngram_positions text n threshold))))"
    and "p \<notin> set (top_votes top_k (capped_votes top_k
            (compute_pairwise_distances (extract_ngram_positions text n threshold))))"
    and "q \<in> set (top_votes top_k (capped_votes top_k
            (compute_pairwise_distances (extract_ngram_positions text n threshold))))"
  then show "snd p \<le> snd q" by (rule top_votes_best)
qed (auto simp: kasiski_test_eq capped_votes_count top_votes_length top_votes_distinct
       top_votes_descending top_votes_ties dest: top_votes_counts)

theorem kasiski_test_capped_votes_witness:
  "(1::int) \<le> 3
   \<and> kasiski_test ''ABCDEFABCDEFABCDEFABCDEF'' 3 3 2 = Inr [(2, 6), (3, 6), (6, 6)]
   \<and> top_votes 3 (capped_votes 3 (compute_pairwise_distances
         (extract_ngram_positions ''ABCDEFABCDEFABCDEFABCDEF'' 3 2)))
       = [(2, 6), (3, 6), (6, 6)]"
proof -
  have v: "kasiski_test ''ABCDEFABCDEFABCDEFABCDEF'' 3 3 2 = Inr [(2, 6), (3, 6), (6, 6)]"
    by code_simp
  from kasiski_test_capped_votes [of 3 "''ABCDEFABCDEFABCDEFABCDEF''" 3 2] v
  show ?thesis by (simp add: Let_def)
qed

section \<open>The script without a candidate key length\<close>

text \<open>
  C1, amended. When the Kasiski runs and the filter of lengths above 2 leave no candidate
  key length, the selection stage raises nothing: its loop body never runs and it keeps
  key length 0, the initial value of \<open>greatest\<close>; key recovery then returns the empty key,
  and the script goes on to decrypt with it.
\<close>

theorem no_candidates_default_zero:
  assumes "kasiski_stage text tests [] = Inr list_dicts"
    and "candidate_lengths (sum_dicts list_dicts) = []"
  shows "select_key_length text (candidate_lengths (sum_dicts list_dicts)) (0, 0) = Inr (0, 0)
     \<and> recover_key text 0 [0..<0] [] = Inr []
     \<and> main_script text =
         (case decrypt_vigenere (take 500 text) [] of
            Inl e \<Rightarrow> Inl e
          | Inr plain \<Rightarrow> Inr (0, [], plain))"
  using assms by (simp add: main_script_def split: sum.splits)

theorem no_candidates_default_zero_witness:
  "kasiski_stage [] tests [] = Inr [[], [], [], [], []]
     \<and> candidate_lengths (sum_dicts [[], [], [], [], []]) = []
     \<and> select_key_length [] [] (0, 0) = Inr (0, 0)
     \<and> recover_key [] 0 [] [] = Inr []
     \<and> main_script [] = Inr (0, [], [])"
proof -
  have k: "kasiski_stage [] tests [] = Inr [[], [], [], [], []]" by code_simp
  have c: "candidate_lengths (sum_dicts [[], [], [], [], []]) = []" by code_simp
  have d: "decrypt_vigenere (take 500 []) [] = Inr []" by code_simp
  from no_candidates_default_zero [OF k c] k c d show ?thesis by simp
qed

text \<open>
  C1 as stated fails on the two-letter text \<open>AB\<close>: there is no candidate, and the selection
  stage returns key length 0 instead of raising.
\<close>

theorem no_candidates_counterexample:
  "kasiski_stage ''AB'' tests [] = Inr [[], [], [], [], []]
     \<and> candidate_lengths (sum_dicts [[], [], [], [], []]) = []
     \<and> select_key_length ''AB'' [] (0, 0) = Inr (0, 0)
     \<and> \<not> isl (select_key_length ''AB'' [] (0, 0))"
proof -
  have k: "kasiski_stage ''AB'' tests [] = Inr [[], [], [], [], []]" by code_simp
  have c: "candidate_lengths (sum_dicts [[], [], [], [], []]) = []" by code_simp
  from k c show ?thesis by simp
qed

end
